theory Spec2Isabelle
  imports Main
begin

section \<open>The weighted round-robin balancer of pkg/tcp/wrr\_load\_balancer.go\<close>

text \<open>
  The Go source keeps a slice of servers (a handler and a weight each), the rotating
  iteration state \<open>index\<close> and \<open>currentWeight\<close>, a map of per-child status flags and a
  list of updater callbacks. The handler, the connection and the callbacks are opaque to
  the balancer, so they are type parameters here. The mutex is not modelled: every
  function below is one critical section run to its end.
\<close>

subsection \<open>Go integers\<close>

text \<open>
  Go's \<open>int\<close> is a 64-bit two's complement integer on the 64-bit targets. It is modelled
  as \<open>int\<close>. The arithmetic of the source that can leave the 64-bit range is
  \<open>b.currentWeight -= gcd\<close>, where the wrap-around is written out with \<open>wrap64\<close>;
  \<open>b.index + 1\<close> stays in range, the index being below the length of a slice, and the
  remainders of the GCD loop are smaller in magnitude than their divisor.
  Go's \<open>%\<close> truncates towards zero: its result has the sign of the dividend.
\<close>

definition wrap64 :: "int \<Rightarrow> int" where
  "wrap64 x = (x + 2 ^ 63) mod 2 ^ 64 - 2 ^ 63"

definition go_rem :: "int \<Rightarrow> int \<Rightarrow> int" where
  "go_rem a b = sgn a * (\<bar>a\<bar> mod \<bar>b\<bar>)"

subsection \<open>Data\<close>

record 'h server =
  Handler :: 'h
  weight :: int

text \<open>
  \<open>status\<close> is a Go map: \<open>None\<close> is the nil map (reads find nothing, a write panics),
  \<open>Some m\<close> an allocated one. An \<open>atomic.Bool\<close> cell is its boolean content.
\<close>

record ('h, 'u) WRRLoadBalancer =
  servers :: "'h server list"
  currentWeight :: int
  index :: int
  status :: "(string \<rightharpoonup> bool) option"
  updaters :: "'u list"

datatype error = EmptyPoolError | AllZeroWeightError

fun Error :: "error \<Rightarrow> string" where
  "Error EmptyPoolError = ''no servers in the pool''"
| "Error AllZeroWeightError = ''all servers have 0 weight''"

datatype panic = IndexOutOfRange | AssignmentToNilMap

datatype 'a result = Panic panic | Ok 'a

subsection \<open>Construction\<close>

definition NewWRRLoadBalancer :: "('h, 'u) WRRLoadBalancer" where
  "NewWRRLoadBalancer =
     \<lparr>servers = [], currentWeight = 0, index = - 1, status = None, updaters = []\<rparr>"

text \<open>The weight is a pointer in the source: \<open>None\<close> is nil and means weight 1.\<close>

definition AddWeightServer ::
  "('h, 'u) WRRLoadBalancer \<Rightarrow> 'h \<Rightarrow> int option \<Rightarrow> ('h, 'u) WRRLoadBalancer" where
  "AddWeightServer b serverHandler weight_opt =
     (let w = (case weight_opt of None \<Rightarrow> 1 | Some v \<Rightarrow> v)
      in b\<lparr>servers := servers b @ [\<lparr>Handler = serverHandler, weight = w\<rparr>]\<rparr>)"

definition AddServer :: "('h, 'u) WRRLoadBalancer \<Rightarrow> 'h \<Rightarrow> ('h, 'u) WRRLoadBalancer" where
  "AddServer b serverHandler = AddWeightServer b serverHandler (Some 1)"

subsection \<open>Weight arithmetic\<close>

definition maxWeight :: "('h, 'u) WRRLoadBalancer \<Rightarrow> int" where
  "maxWeight b = foldl (\<lambda>mx s. if weight s > mx then weight s else mx) (- 1) (servers b)"

function gcd_go :: "int \<Rightarrow> int \<Rightarrow> int" where
  "gcd_go a b = (if b \<noteq> 0 then gcd_go b (go_rem a b) else a)"
  by pat_completeness auto
termination
proof (relation "measure (\<lambda>(a, b). nat \<bar>b\<bar>)")
  show "wf (measure (\<lambda>(a, b). nat \<bar>b\<bar>))" by simp
next
  fix a b :: int
  assume b: "b \<noteq> 0"
  have nonneg: "0 \<le> \<bar>a\<bar> mod \<bar>b\<bar>"
    using b by simp
  then have "\<bar>sgn a * (\<bar>a\<bar> mod \<bar>b\<bar>)\<bar> \<le> \<bar>a\<bar> mod \<bar>b\<bar>"
    by (simp add: abs_mult abs_sgn_eq)
  moreover have "\<bar>a\<bar> mod \<bar>b\<bar> < \<bar>b\<bar>"
    using b by simp
  ultimately show "((b, go_rem a b), (a, b)) \<in> measure (\<lambda>(a, b). nat \<bar>b\<bar>)"
    by (simp add: go_rem_def)
qed

declare gcd_go.simps [simp del]

definition weightGcd :: "('h, 'u) WRRLoadBalancer \<Rightarrow> int" where
  "weightGcd b =
     foldl (\<lambda>divisor s. if divisor = - 1 then weight s else gcd_go divisor (weight s))
       (- 1) (servers b)"

subsection \<open>Selection\<close>

text \<open>
  One pass through the body of the \<open>for\<close> loop of \<open>next\<close>: \<open>Inl\<close> is what the loop leaves
  with (the \<open>return srv, nil\<close>, or the run-time panic of an index outside the slice),
  \<open>Inr\<close> the balancer the next pass starts from.
\<close>

definition next_iteration ::
  "int \<Rightarrow> int \<Rightarrow> ('h, 'u) WRRLoadBalancer \<Rightarrow>
     ((error + 'h server) \<times> ('h, 'u) WRRLoadBalancer) result + ('h, 'u) WRRLoadBalancer" where
  "next_iteration mx g b =
     (let idx = go_rem (index b + 1) (int (length (servers b)));
          cw = (if idx = 0
                then (if wrap64 (currentWeight b - g) \<le> 0 then mx
                      else wrap64 (currentWeight b - g))
                else currentWeight b);
          b' = b\<lparr>index := idx, currentWeight := cw\<rparr>
      in if idx < 0 \<or> int (length (servers b)) \<le> idx then Inl (Panic IndexOutOfRange)
         else if weight (servers b ! nat idx) \<ge> cw
              then Inl (Ok (Inr (servers b ! nat idx), b'))
              else Inr b')"

text \<open>The loop itself: \<open>None\<close> when it never leaves.\<close>

partial_function (option) next_loop ::
  "int \<Rightarrow> int \<Rightarrow> ('h, 'u) WRRLoadBalancer \<Rightarrow>
     ((error + 'h server) \<times> ('h, 'u) WRRLoadBalancer) result option" where
  "next_loop mx g b =
     (case next_iteration mx g b of Inl r \<Rightarrow> Some r | Inr b' \<Rightarrow> next_loop mx g b')"

declare next_loop.simps [code]

text \<open>The same loop cut off after \<open>n\<close> passes, to count them.\<close>

fun next_loop_bounded ::
  "nat \<Rightarrow> int \<Rightarrow> int \<Rightarrow> ('h, 'u) WRRLoadBalancer \<Rightarrow>
     ((error + 'h server) \<times> ('h, 'u) WRRLoadBalancer) result option" where
  "next_loop_bounded 0 mx g b = None"
| "next_loop_bounded (Suc n) mx g b =
     (case next_iteration mx g b of Inl r \<Rightarrow> Some r | Inr b' \<Rightarrow> next_loop_bounded n mx g b')"

text \<open>
  \<open>next\<close> of the source (the name is a keyword here). It returns a handler or an error,
  and the balancer as it leaves it.
\<close>

definition next_handler ::
  "('h, 'u) WRRLoadBalancer \<Rightarrow>
     ((error + 'h server) \<times> ('h, 'u) WRRLoadBalancer) result option" where
  "next_handler b =
     (if length (servers b) = 0 then Some (Ok (Inl EmptyPoolError, b))
      else if maxWeight b = 0 then Some (Ok (Inl AllZeroWeightError, b))
      else next_loop (maxWeight b) (weightGcd b) b)"

text \<open>
  \<open>k\<close> successive calls of \<open>next\<close>, each on the balancer the one before left: what each
  call returned and the balancer after it. \<open>None\<close> when a call does not return or panics.
\<close>

fun next_calls ::
  "nat \<Rightarrow> ('h, 'u) WRRLoadBalancer \<Rightarrow>
     ((error + 'h server) \<times> ('h, 'u) WRRLoadBalancer) list option" where
  "next_calls 0 b = Some []"
| "next_calls (Suc k) b =
     (case next_handler b of
        Some (Ok (r, b')) \<Rightarrow> map_option ((#) (r, b')) (next_calls k b')
      | _ \<Rightarrow> None)"

subsection \<open>Dispatch\<close>

text \<open>
  What \<open>ServeTCP\<close> does to its collaborators, in order: the error it logs, the close of
  the connection, the call of a handler's own \<open>ServeTCP\<close>.
\<close>

datatype ('h, 'c) serve_effect = LogError error | ConnClose 'c | HandlerServeTCP 'h 'c

definition ServeTCP ::
  "('h, 'u) WRRLoadBalancer \<Rightarrow> 'c \<Rightarrow>
     (('h, 'c) serve_effect list \<times> ('h, 'u) WRRLoadBalancer) result option" where
  "ServeTCP b conn =
     (case next_handler b of
        None \<Rightarrow> None
      | Some (Panic p) \<Rightarrow> Some (Panic p)
      | Some (Ok (Inl err, b')) \<Rightarrow> Some (Ok ([LogError err, ConnClose conn], b'))
      | Some (Ok (Inr srv, b')) \<Rightarrow> Some (Ok ([HandlerServeTCP (Handler srv) conn], b')))"

subsection \<open>Status\<close>

datatype 'u status_effect = LogDebug string | UpdaterCall 'u bool

definition SetStatus ::
  "('h, 'u) WRRLoadBalancer \<Rightarrow> string \<Rightarrow> bool \<Rightarrow>
     ('u status_effect list \<times> ('h, 'u) WRRLoadBalancer) result" where
  "SetStatus b childName up =
     (let statusString = (if up then ''UP'' else ''DOWN'');
          setting = LogDebug (''Setting status of '' @ childName @ '' to '' @ statusString)
      in case status b of
           None \<Rightarrow> Panic AssignmentToNilMap
         | Some m \<Rightarrow>
             (case m childName of
                None \<Rightarrow> Ok ([setting], b\<lparr>status := Some (m(childName \<mapsto> up))\<rparr>)
              | Some currentStatus \<Rightarrow>
                  if currentStatus \<noteq> (\<not> up)
                  then Ok ([setting,
                            LogDebug (''Still '' @ statusString @ '', no need to propagate'')], b)
                  else Ok ([setting,
                            LogDebug (''Propagating new '' @ statusString @ '' status'')]
                           @ map (\<lambda>fn. UpdaterCall fn up) (updaters b),
                           b\<lparr>status := Some (m(childName \<mapsto> up))\<rparr>)))"

definition updater_calls :: "'u status_effect list \<Rightarrow> ('u \<times> bool) list" where
  "updater_calls effs = concat (map (\<lambda>e. case e of UpdaterCall fn v \<Rightarrow> [(fn, v)] | _ \<Rightarrow> []) effs)"

subsection \<open>Reading a run of calls\<close>

text \<open>The handler (or error) each call of a run returned, and the index it stopped at.\<close>

definition returned_handlers ::
  "((error + 'h server) \<times> ('h, 'u) WRRLoadBalancer) list \<Rightarrow> (error + 'h) list" where
  "returned_handlers rs = map (\<lambda>(r, b'). map_sum id Handler r) rs"

definition selected_indices ::
  "((error + 'h server) \<times> ('h, 'u) WRRLoadBalancer) list \<Rightarrow> int list" where
  "selected_indices rs = map (\<lambda>(r, b'). index b') rs"

text \<open>
  \<open>selected b r b'\<close>: the call left through \<open>return srv, nil\<close> with the entry at the
  index it stopped at, and changed nothing but \<open>index\<close> and \<open>currentWeight\<close>.
\<close>

definition selected ::
  "('h, 'u) WRRLoadBalancer \<Rightarrow> (error + 'h server) \<Rightarrow> ('h, 'u) WRRLoadBalancer \<Rightarrow> bool" where
  "selected b r b' \<longleftrightarrow>
     b' = b\<lparr>index := index b', currentWeight := currentWeight b'\<rparr> \<and>
     0 \<le> index b' \<and> index b' < int (length (servers b)) \<and>
     r = Inr (servers b ! nat (index b')) \<and>
     currentWeight b' \<le> weight (servers b ! nat (index b'))"

subsection \<open>Example balancers\<close>

definition pool_3_1 :: "(string, string) WRRLoadBalancer" where
  "pool_3_1 =
     AddWeightServer (AddWeightServer NewWRRLoadBalancer ''A'' (Some 3)) ''B'' (Some 1)"

definition with_status :: "(string, string) WRRLoadBalancer" where
  "with_status =
     NewWRRLoadBalancer\<lparr>status := Some [''a'' \<mapsto> True], updaters := [''parent'']\<rparr>"

definition pool_2_1 :: "(string, string) WRRLoadBalancer" where
  "pool_2_1 =
     AddWeightServer (AddWeightServer NewWRRLoadBalancer ''A'' (Some 2)) ''B'' (Some 1)"

definition pool_4_2 :: "(string, string) WRRLoadBalancer" where
  "pool_4_2 =
     AddWeightServer (AddWeightServer NewWRRLoadBalancer ''A'' (Some 4)) ''B'' (Some 2)"

definition pool_neg1_4_2 :: "(string, string) WRRLoadBalancer" where
  "pool_neg1_4_2 =
     AddWeightServer (AddWeightServer (AddWeightServer NewWRRLoadBalancer
       ''A'' (Some (- 1))) ''B'' (Some 4)) ''C'' (Some 2)"

definition pool_neg3_12_6 :: "(string, string) WRRLoadBalancer" where
  "pool_neg3_12_6 =
     AddWeightServer (AddWeightServer (AddWeightServer NewWRRLoadBalancer
       ''A'' (Some (- 3))) ''B'' (Some 12)) ''C'' (Some 6)"


definition pool_neg_wrap :: "(string, string) WRRLoadBalancer" where
  "pool_neg_wrap =
     AddWeightServer (AddWeightServer NewWRRLoadBalancer ''A'' (Some (- 1))) ''B''
       (Some (- (2 ^ 62)))"

definition pool_after_wrap :: "(string, string) WRRLoadBalancer" where
  "pool_after_wrap =
     AddWeightServer (AddWeightServer (pool_neg_wrap\<lparr>index := 0, currentWeight := - 1\<rparr>)
       ''C'' (Some 0)) ''D'' (Some 5)"

definition pool_neg1 :: "(string, string) WRRLoadBalancer" where
  "pool_neg1 = AddWeightServer NewWRRLoadBalancer ''A'' (Some (- 1))"

definition pool_neg2_4 :: "(string, string) WRRLoadBalancer" where
  "pool_neg2_4 =
     AddWeightServer (AddWeightServer NewWRRLoadBalancer ''A'' (Some (- 2))) ''B'' (Some 4)"

definition pool_0_2 :: "(string, string) WRRLoadBalancer" where
  "pool_0_2 =
     AddWeightServer (AddWeightServer NewWRRLoadBalancer ''A'' (Some 0)) ''B'' (Some 2)"

definition pool_0_0 :: "(string, string) WRRLoadBalancer" where
  "pool_0_0 =
     AddWeightServer (AddWeightServer NewWRRLoadBalancer ''A'' (Some 0)) ''B'' (Some 0)"

subsection \<open>Passes and levels\<close>

text \<open>
  The level the loop moves to when the index wraps to 0 (the decrement by the GCD, with
  the reset to the maximum), and the indices from \<open>k\<close> on whose weight reaches a level
  \<open>c\<close>: the entries a pass at that level still returns.
\<close>

definition next_level :: "int \<Rightarrow> int \<Rightarrow> int \<Rightarrow> int" where
  "next_level mx g c = (if wrap64 (c - g) \<le> 0 then mx else wrap64 (c - g))"

definition qualifying :: "('h, 'u) WRRLoadBalancer \<Rightarrow> int \<Rightarrow> nat \<Rightarrow> nat list" where
  "qualifying b c k = filter (\<lambda>j. c \<le> weight (servers b ! j)) [k..<length (servers b)]"

text \<open>
  The balancers with weights that are not negative, in the states the constructor,
  \<open>AddWeightServer\<close> and \<open>next\<close> lead to: the index is \<open>-1\<close> or a position in the pool,
  and \<open>currentWeight\<close> is at most the greatest weight, and positive once a call has
  returned an entry.
\<close>

definition wrr_inv :: "('h, 'u) WRRLoadBalancer \<Rightarrow> bool" where
  "wrr_inv b \<longleftrightarrow>
     (\<forall>s \<in> set (servers b). 0 \<le> weight s \<and> weight s < 2 ^ 63) \<and>
     - 1 \<le> index b \<and> index b < int (length (servers b)) \<and>
     0 \<le> currentWeight b \<and> currentWeight b \<le> max 0 (maxWeight b) \<and>
     (index b = - 1 \<or> 0 < currentWeight b)"

subsection \<open>Cycles\<close>

text \<open>
  The balancer a run of calls leaves. A pass is done when no entry after the index
  reaches the current level; a cycle starts where a pass is done and the level is at
  most the divisor, so that the next wrap resets it to the greatest weight: the fresh
  state, and the state every full cycle ends in. \<open>level_schedule b t\<close> lists the
  positions the passes at the levels \<open>t * g\<close>, \<dots>, \<open>2 * g\<close>, \<open>g\<close> return, in order.
\<close>

definition balancer_after ::
  "('h, 'u) WRRLoadBalancer \<Rightarrow> ((error + 'h server) \<times> ('h, 'u) WRRLoadBalancer) list \<Rightarrow>
     ('h, 'u) WRRLoadBalancer" where
  "balancer_after b rs = (if rs = [] then b else snd (last rs))"



definition level_schedule :: "('h, 'u) WRRLoadBalancer \<Rightarrow> nat \<Rightarrow> nat list" where
  "level_schedule b t =
     concat (map (\<lambda>u. qualifying b (int u * weightGcd b) 0) (rev [1..<Suc t]))"

subsection \<open>Scaling the weights\<close>

text \<open>
  The balancer with every weight multiplied by \<open>k\<close>, in the corresponding iteration
  state: the same index, and \<open>currentWeight\<close> multiplied by \<open>k\<close> as well (the fresh
  state, with \<open>currentWeight\<close> 0, corresponds to itself).
\<close>

definition scale_server :: "int \<Rightarrow> 'h server \<Rightarrow> 'h server" where
  "scale_server k s = s\<lparr>weight := k * weight s\<rparr>"

definition scaled :: "int \<Rightarrow> ('h, 'u) WRRLoadBalancer \<Rightarrow> ('h, 'u) WRRLoadBalancer" where
  "scaled k b =
     b\<lparr>servers := map (scale_server k) (servers b), currentWeight := k * currentWeight b\<rparr>"

definition scaled_outcome ::
  "int \<Rightarrow> ((error + 'h server) \<times> ('h, 'u) WRRLoadBalancer) result \<Rightarrow>
     ((error + 'h server) \<times> ('h, 'u) WRRLoadBalancer) result" where
  "scaled_outcome k out =
     (case out of Panic p \<Rightarrow> Panic p
      | Ok (r, b') \<Rightarrow> Ok (map_sum id (scale_server k) r, scaled k b'))"

section \<open>Properties\<close>

subsection \<open>The loop and its bounded form\<close>

lemma next_loop_bounded_imp:
  "next_loop_bounded n mx g b = Some r \<Longrightarrow> next_loop mx g b = Some r"
proof (induction n arbitrary: b)
  case 0
  then show ?case by simp
next
  case (Suc n)
  show ?case
  proof (cases "next_iteration mx g b")
    case (Inl out)
    with Suc.prems show ?thesis by (subst next_loop.simps) simp
  next
    case (Inr b')
    with Suc.prems have "next_loop_bounded n mx g b' = Some r" by simp
    then have "next_loop mx g b' = Some r" by (rule Suc.IH)
    with Inr show ?thesis by (subst next_loop.simps) simp
  qed
qed

lemma next_loop_imp_bounded:
  assumes "next_loop mx g b = Some r"
  shows "\<exists>n. next_loop_bounded n mx g b = Some r"
  using assms
proof (induct rule: next_loop.raw_induct[rotated 1, consumes 1, case_names step])
  case (step loop mx g b r)
  show ?case
  proof (cases "next_iteration mx g b")
    case (Inl out)
    with step have "next_loop_bounded (Suc 0) mx g b = Some r" by simp
    then show ?thesis by blast
  next
    case (Inr b')
    with step have "loop mx g b' = Some r" by simp
    then obtain n where "next_loop_bounded n mx g b' = Some r"
      using step by blast
    with Inr have "next_loop_bounded (Suc n) mx g b = Some r" by simp
    then show ?thesis by blast
  qed
qed

lemma next_iteration_Inr:
  "next_iteration mx g b = Inr b' \<Longrightarrow>
     b' = b\<lparr>index := index b', currentWeight := currentWeight b'\<rparr>"
  by (auto simp: next_iteration_def Let_def split: if_splits)

lemma next_iteration_Ok:
  "next_iteration mx g b = Inl (Ok (r, b')) \<Longrightarrow> selected b r b'"
  by (auto simp: next_iteration_def selected_def Let_def split: if_splits)

lemma selected_trans:
  "b1 = b\<lparr>index := index b1, currentWeight := currentWeight b1\<rparr> \<Longrightarrow>
     selected b1 r b' \<Longrightarrow> selected b r b'"
  unfolding selected_def
  by (metis (no_types, lifting) WRRLoadBalancer.select_convs(1) WRRLoadBalancer.surjective
      WRRLoadBalancer.update_convs(2,3))

lemma next_loop_bounded_selected:
  "next_loop_bounded n mx g b = Some (Ok (r, b')) \<Longrightarrow> selected b r b'"
proof (induction n arbitrary: b)
  case 0
  then show ?case by simp
next
  case (Suc n)
  show ?case
  proof (cases "next_iteration mx g b")
    case (Inl out)
    with Suc.prems show ?thesis by (simp add: next_iteration_Ok)
  next
    case (Inr b1)
    with Suc.prems have "selected b1 r b'" by (simp add: Suc.IH)
    with next_iteration_Inr[OF Inr] show ?thesis by (rule selected_trans)
  qed
qed

lemma next_loop_selected:
  "next_loop mx g b = Some (Ok (r, b')) \<Longrightarrow> selected b r b'"
  using next_loop_imp_bounded next_loop_bounded_selected by blast

text \<open>The three ways \<open>next\<close> returns.\<close>

lemma next_handler_cases:
  assumes "next_handler b = Some (Ok (r, b'))"
  shows "(servers b = [] \<and> r = Inl EmptyPoolError \<and> b' = b) \<or>
         (servers b \<noteq> [] \<and> maxWeight b = 0 \<and> r = Inl AllZeroWeightError \<and> b' = b) \<or>
         (servers b \<noteq> [] \<and> maxWeight b \<noteq> 0 \<and> selected b r b')"
  using assms
  by (auto simp: next_handler_def dest: next_loop_selected split: if_splits)

subsection \<open>The greatest weight and the divisor\<close>

lemma go_rem_nonneg: "0 \<le> a \<Longrightarrow> 0 \<le> b \<Longrightarrow> go_rem a b = a mod b"
  by (cases "a = 0") (simp_all add: go_rem_def)

lemma foldl_max_weight:
  "foldl (\<lambda>mx s. if weight s > mx then weight s else mx) m xs = Max (insert m (weight ` set xs))"
proof (induction xs arbitrary: m)
  case Nil
  then show ?case by simp
next
  case (Cons x xs)
  have "Max (insert (if m < weight x then weight x else m) (weight ` set xs)) =
        Max (insert m (insert (weight x) (weight ` set xs)))"
    by (cases "weight ` set xs = {}") (auto simp: max_def)
  then show ?case by (simp add: Cons.IH)
qed

lemma maxWeight_Max: "maxWeight b = Max (insert (- 1) (weight ` set (servers b)))"
  by (simp add: maxWeight_def foldl_max_weight)

lemma maxWeight_ge: "s \<in> set (servers b) \<Longrightarrow> weight s \<le> maxWeight b"
  by (simp add: maxWeight_Max)


lemma maxWeight_lower: "- 1 \<le> maxWeight b"
  by (simp add: maxWeight_Max)

lemma maxWeight_attained:
  assumes "maxWeight b \<noteq> - 1"
  shows "\<exists>j < length (servers b). weight (servers b ! j) = maxWeight b"
proof -
  have "maxWeight b \<in> insert (- 1) (weight ` set (servers b))"
    unfolding maxWeight_Max by (rule Max_in) simp_all
  with assms obtain s where "s \<in> set (servers b)" "weight s = maxWeight b" by auto
  then show ?thesis by (metis in_set_conv_nth)
qed

lemma maxWeight_pos_iff: "0 < maxWeight b \<longleftrightarrow> (\<exists>s \<in> set (servers b). 0 < weight s)"
  by (auto simp: maxWeight_Max Max_gr_iff)

lemma maxWeight_zero_iff:
  "maxWeight b = 0 \<longleftrightarrow>
     (\<forall>s \<in> set (servers b). weight s \<le> 0) \<and> (\<exists>s \<in> set (servers b). weight s = 0)"
proof
  assume z: "maxWeight b = 0"
  then have "\<forall>s \<in> set (servers b). weight s \<le> 0" using maxWeight_ge [of _ b] by auto
  moreover from z maxWeight_attained [of b] have "\<exists>s \<in> set (servers b). weight s = 0"
    by (metis nth_mem zero_neq_neg_one)
  ultimately show "(\<forall>s \<in> set (servers b). weight s \<le> 0) \<and> (\<exists>s \<in> set (servers b). weight s = 0)"
    by simp
next
  assume a: "(\<forall>s \<in> set (servers b). weight s \<le> 0) \<and> (\<exists>s \<in> set (servers b). weight s = 0)"
  then have "maxWeight b \<le> 0" by (auto simp: maxWeight_Max)
  moreover have "0 \<le> maxWeight b"
  proof -
    from a obtain s where "s \<in> set (servers b)" "weight s = 0" by blast
    with maxWeight_ge [of s b] show ?thesis by simp
  qed
  ultimately show "maxWeight b = 0" by simp
qed

lemma wrap64_id: "- (2 ^ 63) \<le> x \<Longrightarrow> x < 2 ^ 63 \<Longrightarrow> wrap64 x = x"
  by (simp add: wrap64_def)

lemma gcd_go_nonneg: "0 \<le> a \<Longrightarrow> 0 \<le> b \<Longrightarrow> gcd_go a b = gcd a b"
proof (induction a b rule: gcd_go.induct)
  case (1 a b)
  show ?case
  proof (cases "b = 0")
    case True
    with 1 show ?thesis by (subst gcd_go.simps) simp
  next
    case False
    have "gcd_go a b = gcd_go b (go_rem a b)"
      using False by (subst gcd_go.simps) simp
    also have "\<dots> = gcd b (a mod b)"
      using 1 False by (simp add: go_rem_nonneg)
    also have "\<dots> = gcd a b"
      by (metis gcd_red_int)
    finally show ?thesis .
  qed
qed

lemma foldl_gcd_weight:
  assumes "0 \<le> d" and "\<forall>s \<in> set xs. 0 \<le> weight s"
  shows "foldl (\<lambda>divisor s. if divisor = - 1 then weight s else gcd_go divisor (weight s)) d xs =
           gcd d (Gcd (weight ` set xs))"
  using assms
proof (induction xs arbitrary: d)
  case Nil
  then show ?case by simp
next
  case (Cons x xs)
  have "d \<noteq> - 1" using Cons.prems by auto
  moreover have "gcd_go d (weight x) = gcd d (weight x)"
    using Cons.prems by (simp add: gcd_go_nonneg)
  moreover have "0 \<le> gcd d (weight x)" by simp
  ultimately show ?case using Cons.prems
    by (simp add: Cons.IH gcd.assoc)
qed

lemma weightGcd_Gcd:
  assumes "servers b \<noteq> []" and "\<forall>s \<in> set (servers b). 0 \<le> weight s"
  shows "weightGcd b = Gcd (weight ` set (servers b))"
proof -
  from assms(1) obtain x xs where xs: "servers b = x # xs" by (cases "servers b") auto
  with assms(2) have "0 \<le> weight x" "\<forall>s \<in> set xs. 0 \<le> weight s" by simp_all
  then show ?thesis
    by (simp add: weightGcd_def xs foldl_gcd_weight)
qed

subsection \<open>One call, pass by pass\<close>

lemma next_iteration_advance:
  assumes "index b = int i" and "Suc i < length (servers b)"
  shows "next_iteration mx g b =
           (if currentWeight b \<le> weight (servers b ! Suc i)
            then Inl (Ok (Inr (servers b ! Suc i), b\<lparr>index := int (Suc i)\<rparr>))
            else Inr (b\<lparr>index := int (Suc i)\<rparr>))"
proof -
  have "go_rem (index b + 1) (int (length (servers b))) = int (Suc i)"
    using assms by (simp add: go_rem_nonneg)
  then show ?thesis
    using assms by (simp add: next_iteration_def Let_def nat_add_distrib)
qed

lemma next_iteration_wrap:
  assumes "index b = - 1 \<or> index b + 1 = int (length (servers b))" and "servers b \<noteq> []"
  shows "next_iteration mx g b =
           (if next_level mx g (currentWeight b) \<le> weight (servers b ! 0)
            then Inl (Ok (Inr (servers b ! 0),
                   b\<lparr>index := 0, currentWeight := next_level mx g (currentWeight b)\<rparr>))
            else Inr (b\<lparr>index := 0, currentWeight := next_level mx g (currentWeight b)\<rparr>))"
proof -
  have "go_rem (index b + 1) (int (length (servers b))) = 0"
    using assms by (auto simp: go_rem_def)
  then show ?thesis
    using assms by (simp add: next_iteration_def Let_def next_level_def)
qed

lemma next_loop_bounded_mono:
  "next_loop_bounded n mx g b = Some r \<Longrightarrow> next_loop_bounded (n + k) mx g b = Some r"
proof (induction n arbitrary: b)
  case 0
  then show ?case by simp
next
  case (Suc n)
  then show ?case by (cases "next_iteration mx g b") simp_all
qed

text \<open>Skipping the entries below the level, up to an entry that reaches it.\<close>

lemma scan_find:
  assumes "index b = int i" and "i < j" and "j < length (servers b)"
    and "\<forall>k. i < k \<and> k < j \<longrightarrow> \<not> currentWeight b \<le> weight (servers b ! k)"
    and "currentWeight b \<le> weight (servers b ! j)"
  shows "next_loop_bounded (j - i) mx g b = Some (Ok (Inr (servers b ! j), b\<lparr>index := int j\<rparr>))"
  using assms
proof (induction "j - i" arbitrary: i b)
  case 0
  then show ?case by simp
next
  case (Suc d)
  have lt: "Suc i < length (servers b)" using Suc.prems by simp
  have ji: "j - i = Suc (j - Suc i)" using Suc.prems by simp
  show ?case
  proof (cases "Suc i = j")
    case True
    then show ?thesis
      using Suc.prems next_iteration_advance [OF Suc.prems(1) lt, of mx g]
      by (simp add: ji)
  next
    case False
    then have "Suc i < j" using Suc.prems by simp
    moreover have nq: "\<not> currentWeight b \<le> weight (servers b ! Suc i)"
      using Suc.prems \<open>Suc i < j\<close> by simp
    have it: "next_iteration mx g b = Inr (b\<lparr>index := int (Suc i)\<rparr>)"
      using next_iteration_advance [OF Suc.prems(1) lt, of mx g] nq by simp
    have "next_loop_bounded (j - Suc i) mx g (b\<lparr>index := int (Suc i)\<rparr>) =
            Some (Ok (Inr (servers (b\<lparr>index := int (Suc i)\<rparr>) ! j),
                  b\<lparr>index := int (Suc i)\<rparr>\<lparr>index := int j\<rparr>))"
    proof (rule Suc.hyps(1))
      show "d = j - Suc i" using Suc.hyps(2) by simp
    qed (use Suc.prems \<open>Suc i < j\<close> in simp_all)
    then show ?thesis using it by (simp add: ji)
  qed
qed

lemma filter_upt_Cons:
  assumes "filter P [k..<n] = j # js"
  shows "k \<le> j \<and> j < n \<and> P j \<and> (\<forall>x. k \<le> x \<and> x < j \<longrightarrow> \<not> P x) \<and> filter P [Suc j..<n] = js"
  using assms
proof (induction "n - k" arbitrary: k)
  case 0
  then show ?case by simp
next
  case (Suc d)
  then have kn: "k < n" by simp
  then have upt: "[k..<n] = k # [Suc k..<n]" by (rule upt_conv_Cons)
  show ?case
  proof (cases "P k")
    case True
    with Suc.prems upt kn show ?thesis by auto
  next
    case False
    with Suc.prems upt have f: "filter P [Suc k..<n] = j # js" by simp
    have "d = n - Suc k" using Suc.hyps(2) by simp
    note ih = Suc.hyps(1) [OF this f]
    have "\<not> P x" if "k \<le> x \<and> x < j" for x
    proof (cases "x = k")
      case True
      with False show ?thesis by simp
    next
      case neq: False
      with that have "Suc k \<le> x \<and> x < j" by simp
      with ih show ?thesis by blast
    qed
    with ih show ?thesis by simp
  qed
qed

lemma filter_upt_Nil: "filter P [k..<n] = [] \<Longrightarrow> k \<le> x \<Longrightarrow> x < n \<Longrightarrow> \<not> P x"
  by (auto simp: filter_empty_conv)

lemma select_in_pass:
  assumes "index b = int i" and "qualifying b (currentWeight b) (Suc i) = j # js"
  shows "next_loop_bounded (j - i) mx g b =
           Some (Ok (Inr (servers b ! j), b\<lparr>index := int j\<rparr>))"
    and "qualifying b (currentWeight b) (Suc j) = js"
    and "i < j" and "j < length (servers b)"
proof -
  note f = filter_upt_Cons [OF assms(2) [unfolded qualifying_def]]
  show "i < j" and "j < length (servers b)" using f by simp_all
  show "qualifying b (currentWeight b) (Suc j) = js"
    using f by (simp add: qualifying_def)
  show "next_loop_bounded (j - i) mx g b =
           Some (Ok (Inr (servers b ! j), b\<lparr>index := int j\<rparr>))"
    using f by (intro scan_find assms(1)) (simp_all add: Suc_le_eq)
qed

lemma scan_skip:
  assumes "index b = int i" and "i < length (servers b)"
    and "qualifying b (currentWeight b) (Suc i) = []"
  shows "next_loop_bounded (length (servers b) - 1 - i + f) mx g b =
           next_loop_bounded f mx g (b\<lparr>index := int (length (servers b) - 1)\<rparr>)"
  using assms
proof (induction "length (servers b) - 1 - i" arbitrary: i b)
  case 0
  then have e: "int (length (servers b) - 1) = index b" by simp
  have "b\<lparr>index := int (length (servers b) - 1)\<rparr> = b"
    unfolding e by simp
  moreover have "length (servers b) - 1 - i + f = f" using "0.hyps" by simp
  ultimately show ?case by (simp only:)
next
  case (Suc d)
  then have lt: "Suc i < length (servers b)" by simp
  have nq: "\<not> currentWeight b \<le> weight (servers b ! Suc i)"
    using filter_upt_Nil [OF Suc.prems(3) [unfolded qualifying_def], of "Suc i"] lt by simp
  have it: "next_iteration mx g b = Inr (b\<lparr>index := int (Suc i)\<rparr>)"
    using next_iteration_advance [OF Suc.prems(1) lt, of mx g] nq by simp
  have q: "qualifying (b\<lparr>index := int (Suc i)\<rparr>) (currentWeight (b\<lparr>index := int (Suc i)\<rparr>))
             (Suc (Suc i)) = []"
    using Suc.prems(3) lt unfolding qualifying_def
    by (auto simp: filter_empty_conv)
  have d: "d = length (servers (b\<lparr>index := int (Suc i)\<rparr>)) - 1 - Suc i"
    using Suc.hyps(2) by simp
  have "next_loop_bounded (length (servers (b\<lparr>index := int (Suc i)\<rparr>)) - 1 - Suc i + f) mx g
          (b\<lparr>index := int (Suc i)\<rparr>) =
        next_loop_bounded f mx g
          (b\<lparr>index := int (Suc i)\<rparr>\<lparr>index := int (length (servers (b\<lparr>index := int (Suc i)\<rparr>)) - 1)\<rparr>)"
    by (rule Suc.hyps(1) [OF d _ _ q]) (use lt in simp_all)
  moreover have "length (servers b) - 1 - i + f = Suc (length (servers b) - 1 - Suc i + f)"
    using lt by simp
  ultimately show ?case using it by simp
qed

lemma select_after_wrap:
  assumes "index b = - 1 \<or> index b + 1 = int (length (servers b))"
    and "qualifying b (next_level mx g (currentWeight b)) 0 = j # js"
  shows "next_loop_bounded (Suc j) mx g b =
           Some (Ok (Inr (servers b ! j),
             b\<lparr>index := int j, currentWeight := next_level mx g (currentWeight b)\<rparr>))"
    and "qualifying b (next_level mx g (currentWeight b)) (Suc j) = js"
    and "j < length (servers b)"
proof -
  let ?c = "next_level mx g (currentWeight b)"
  let ?b0 = "b\<lparr>index := 0, currentWeight := ?c\<rparr>"
  note f = filter_upt_Cons [OF assms(2) [unfolded qualifying_def]]
  show jn: "j < length (servers b)" using f by simp
  then have ne: "servers b \<noteq> []" by auto
  show "qualifying b ?c (Suc j) = js" using f by (simp add: qualifying_def)
  note it = next_iteration_wrap [OF assms(1) ne, of mx g]
  show "next_loop_bounded (Suc j) mx g b = Some (Ok (Inr (servers b ! j), b\<lparr>index := int j, currentWeight := ?c\<rparr>))"
  proof (cases j)
    case 0
    then show ?thesis using it f by simp
  next
    case (Suc j')
    then have nq: "\<not> ?c \<le> weight (servers b ! 0)" using f by simp
    have "next_loop_bounded (j - 0) mx g ?b0 =
            Some (Ok (Inr (servers ?b0 ! j), ?b0\<lparr>index := int j\<rparr>))"
      using f Suc jn by (intro scan_find) simp_all
    then show ?thesis using it nq by simp
  qed
qed

lemma select_next_pass:
  assumes "index b = int i" and "i < length (servers b)"
    and "qualifying b (currentWeight b) (Suc i) = []"
    and "qualifying b (next_level mx g (currentWeight b)) 0 = j # js"
  shows "next_loop_bounded (length (servers b) - i + j) mx g b =
           Some (Ok (Inr (servers b ! j),
             b\<lparr>index := int j, currentWeight := next_level mx g (currentWeight b)\<rparr>))"
proof -
  let ?n = "length (servers b)"
  let ?b1 = "b\<lparr>index := int (?n - 1)\<rparr>"
  have "index ?b1 = - 1 \<or> index ?b1 + 1 = int (length (servers ?b1))"
    using assms(2) by simp
  moreover have "qualifying ?b1 (next_level mx g (currentWeight ?b1)) 0 = j # js"
    using assms(4) by (simp add: qualifying_def)
  ultimately have "next_loop_bounded (Suc j) mx g ?b1 =
           Some (Ok (Inr (servers ?b1 ! j),
             ?b1\<lparr>index := int j, currentWeight := next_level mx g (currentWeight ?b1)\<rparr>))"
    by (rule select_after_wrap(1))
  moreover have "?n - i + j = ?n - 1 - i + Suc j" using assms(2) by simp
  ultimately show ?thesis
    using scan_skip [OF assms(1-3), of "Suc j" mx g] by simp
qed

subsection \<open>One call on a pool of non-negative weights\<close>

lemma wrr_inv_weights:
  assumes "wrr_inv b" and "j < length (servers b)"
  shows "0 \<le> weight (servers b ! j)" and "weight (servers b ! j) < 2 ^ 63"
  using assms by (simp_all add: wrr_inv_def)

lemma wrr_inv_gcd:
  assumes "wrr_inv b" and "0 < maxWeight b"
  shows "0 < weightGcd b" and "weightGcd b \<le> maxWeight b" and "maxWeight b < 2 ^ 63"
    and "\<forall>s \<in> set (servers b). weightGcd b dvd weight s" and "weightGcd b dvd maxWeight b"
proof -
  from assms(2) maxWeight_attained [of b] obtain m
    where m: "m < length (servers b)" "weight (servers b ! m) = maxWeight b" by auto
  then have ne: "servers b \<noteq> []" by auto
  have nonneg: "\<forall>s \<in> set (servers b). 0 \<le> weight s" using assms(1) by (simp add: wrr_inv_def)
  have g: "weightGcd b = Gcd (weight ` set (servers b))"
    by (rule weightGcd_Gcd [OF ne nonneg])
  show dvd: "\<forall>s \<in> set (servers b). weightGcd b dvd weight s"
    unfolding g by (simp add: Gcd_dvd)
  from m have "weightGcd b dvd maxWeight b"
    using dvd by (metis nth_mem)
  then show "weightGcd b dvd maxWeight b" .
  then show "weightGcd b \<le> maxWeight b" using assms(2) by (rule zdvd_imp_le)
  show "maxWeight b < 2 ^ 63" using wrr_inv_weights(2) [OF assms(1) m(1)] m(2) by simp
  have "weightGcd b \<noteq> 0"
  proof
    assume "weightGcd b = 0"
    with \<open>weightGcd b dvd maxWeight b\<close> assms(2) show False by simp
  qed
  moreover have "0 \<le> weightGcd b" unfolding g by simp
  ultimately show "0 < weightGcd b" by simp
qed

lemma wrr_inv_next_level:
  assumes "wrr_inv b" and "0 < maxWeight b"
  shows "next_level (maxWeight b) (weightGcd b) (currentWeight b) =
           (if currentWeight b \<le> weightGcd b then maxWeight b else currentWeight b - weightGcd b)"
    and "0 < next_level (maxWeight b) (weightGcd b) (currentWeight b)"
    and "next_level (maxWeight b) (weightGcd b) (currentWeight b) \<le> maxWeight b"
proof -
  note g = wrr_inv_gcd [OF assms]
  have c: "0 \<le> currentWeight b" "currentWeight b \<le> maxWeight b"
    using assms by (simp_all add: wrr_inv_def)
  have "wrap64 (currentWeight b - weightGcd b) = currentWeight b - weightGcd b"
    using g(1-3) c by (intro wrap64_id) simp_all
  then show eq: "next_level (maxWeight b) (weightGcd b) (currentWeight b) =
           (if currentWeight b \<le> weightGcd b then maxWeight b else currentWeight b - weightGcd b)"
    by (simp add: next_level_def)
  show "0 < next_level (maxWeight b) (weightGcd b) (currentWeight b)"
    unfolding eq using assms(2) by simp
  show "next_level (maxWeight b) (weightGcd b) (currentWeight b) \<le> maxWeight b"
    unfolding eq using c g(1) by simp
qed

text \<open>An entry of the greatest weight reaches every level up to it.\<close>

lemma qualifying_from_start:
  assumes "0 < maxWeight b" and "c \<le> maxWeight b"
  obtains j js where "qualifying b c 0 = j # js"
    and "\<And>m. m < length (servers b) \<Longrightarrow> weight (servers b ! m) = maxWeight b \<Longrightarrow> j \<le> m"
proof -
  from assms(1) maxWeight_attained [of b] obtain m
    where m: "m < length (servers b)" "weight (servers b ! m) = maxWeight b" by auto
  then have "m \<in> set (qualifying b c 0)" using assms(2) by (simp add: qualifying_def)
  then obtain j js where q: "qualifying b c 0 = j # js" by (cases "qualifying b c 0") auto
  note f = filter_upt_Cons [OF q [unfolded qualifying_def]]
  have "j \<le> m'" if "m' < length (servers b)" "weight (servers b ! m') = maxWeight b" for m'
  proof (rule ccontr)
    assume "\<not> j \<le> m'"
    then have "m' < j" by simp
    with f have "\<not> c \<le> weight (servers b ! m')" by simp
    with that assms(2) show False by simp
  qed
  with q that show thesis by blast
qed

lemma next_select:
  assumes "wrr_inv b" and "0 < maxWeight b"
  shows "\<exists>f j b'. f \<le> length (servers b) \<and> 0 < f \<and>
           next_loop_bounded f (maxWeight b) (weightGcd b) b =
             Some (Ok (Inr (servers b ! j), b')) \<and> wrr_inv b'"
proof -
  let ?mx = "maxWeight b" and ?g = "weightGcd b" and ?n = "length (servers b)"
  let ?c' = "next_level ?mx ?g (currentWeight b)"
  note lvl = wrr_inv_next_level [OF assms]
  from assms(2) maxWeight_attained [of b] obtain m
    where m: "m < ?n" "weight (servers b ! m) = ?mx" by auto
  obtain j js where q': "qualifying b ?c' 0 = j # js" and jm: "j \<le> m"
    using qualifying_from_start [OF assms(2) lvl(3)] m by metis
  have c: "0 \<le> currentWeight b" "currentWeight b \<le> ?mx"
    using assms by (simp_all add: wrr_inv_def)
  have inv_pos: "wrr_inv (b\<lparr>index := int k, currentWeight := w\<rparr>)"
    if "k < ?n" "0 < w" "w \<le> ?mx" for k w
    using assms(1) that by (simp add: wrr_inv_def maxWeight_def)
  show ?thesis
  proof (cases "index b = - 1")
    case True
    then have w: "index b = - 1 \<or> index b + 1 = int ?n" by simp
    note s = select_after_wrap [OF w q']
    have "Suc j \<le> ?n" using s(3) by simp
    moreover have "wrr_inv (b\<lparr>index := int j, currentWeight := ?c'\<rparr>)"
      using s(3) lvl(2,3) by (rule inv_pos)
    ultimately show ?thesis using s(1) by blast
  next
    case False
    then obtain i where i: "index b = int i" "i < ?n"
      using assms(1) by (auto simp: wrr_inv_def intro: that [of "nat (index b)"])
    have pos: "0 < currentWeight b" using assms(1) False by (simp add: wrr_inv_def)
    show ?thesis
    proof (cases "qualifying b (currentWeight b) (Suc i)")
      case (Cons j1 js1)
      note s = select_in_pass [OF i(1) Cons]
      have "j1 - i \<le> ?n" "0 < j1 - i" using s(3,4) by simp_all
      moreover have "wrr_inv (b\<lparr>index := int j1\<rparr>)"
        using inv_pos [OF s(4) pos c(2)] by simp
      ultimately show ?thesis using s(1) by blast
    next
      case Nil
      note s = select_next_pass [OF i Nil q']
      have "\<not> i < m"
      proof
        assume "i < m"
        then have "m \<in> set (qualifying b (currentWeight b) (Suc i))"
          using m c by (simp add: qualifying_def)
        with Nil show False by simp
      qed
      with jm have "?n - i + j \<le> ?n" "0 < ?n - i + j" using i(2) by simp_all
      moreover have "wrr_inv (b\<lparr>index := int j, currentWeight := ?c'\<rparr>)"
        using jm m(1) lvl(2,3) by (intro inv_pos) simp_all
      ultimately show ?thesis using s by blast
    qed
  qed
qed

subsection \<open>The states the balancer reaches\<close>

lemma wrr_inv_New: "wrr_inv NewWRRLoadBalancer"
  by (simp add: wrr_inv_def NewWRRLoadBalancer_def maxWeight_def)

lemma maxWeight_append:
  "maxWeight (b\<lparr>servers := servers b @ [s]\<rparr>) = max (maxWeight b) (weight s)"
  by (simp add: maxWeight_def max_def)

lemma wrr_inv_AddWeightServer:
  assumes "wrr_inv b" and "0 \<le> w" and "w < 2 ^ 63"
  shows "wrr_inv (AddWeightServer b h (Some w))"
  using assms by (auto simp: wrr_inv_def AddWeightServer_def maxWeight_append)

lemma wrr_inv_next_handler:
  assumes "wrr_inv b" and "next_handler b = Some (Ok (r, b'))"
  shows "wrr_inv b'"
proof (cases "0 < maxWeight b")
  case True
  then have ne: "servers b \<noteq> []" by (auto simp: maxWeight_def)
  from next_select [OF assms(1) True] obtain f j b1
    where bd: "next_loop_bounded f (maxWeight b) (weightGcd b) b = Some (Ok (Inr (servers b ! j), b1))"
      and inv: "wrr_inv b1" by blast
  from bd have "next_loop (maxWeight b) (weightGcd b) b = Some (Ok (Inr (servers b ! j), b1))"
    by (rule next_loop_bounded_imp)
  with assms(2) ne True have "b' = b1" by (simp add: next_handler_def)
  with inv show ?thesis by simp
next
  case False
  have "maxWeight b = 0 \<or> servers b = []"
  proof (cases "servers b = []")
    case ne: False
    then obtain s where "s \<in> set (servers b)" by (cases "servers b") auto
    with assms(1) maxWeight_ge [of s b] have "0 \<le> maxWeight b" by (auto simp: wrr_inv_def)
    with False show ?thesis by simp
  qed simp
  with assms(2) have "b' = b" by (auto simp: next_handler_def split: if_splits)
  with assms(1) show ?thesis by simp
qed

lemma next_iteration_no_panic:
  assumes "- 1 \<le> index b" and "servers b \<noteq> []"
  shows "next_iteration mx g b \<noteq> Inl (Panic p)"
    and "next_iteration mx g b = Inr b' \<Longrightarrow> - 1 \<le> index b' \<and> servers b' \<noteq> []"
proof -
  have n: "0 < int (length (servers b))" using assms(2) by simp
  have "go_rem (index b + 1) (int (length (servers b))) = (index b + 1) mod int (length (servers b))"
    using assms(1) by (simp add: go_rem_nonneg)
  moreover have "0 \<le> (index b + 1) mod int (length (servers b))"
    "(index b + 1) mod int (length (servers b)) < int (length (servers b))"
    using n by simp_all
  ultimately have r: "0 \<le> go_rem (index b + 1) (int (length (servers b)))"
    "go_rem (index b + 1) (int (length (servers b))) < int (length (servers b))"
    by simp_all
  show "next_iteration mx g b \<noteq> Inl (Panic p)"
    using r by (simp add: next_iteration_def Let_def)
  show "next_iteration mx g b = Inr b' \<Longrightarrow> - 1 \<le> index b' \<and> servers b' \<noteq> []"
    using r assms(2) by (auto simp: next_iteration_def Let_def split: if_splits)
qed

lemma next_loop_bounded_no_panic:
  "- 1 \<le> index b \<Longrightarrow> servers b \<noteq> [] \<Longrightarrow> next_loop_bounded n mx g b \<noteq> Some (Panic p)"
proof (induction n arbitrary: b)
  case 0
  then show ?case by simp
next
  case (Suc n)
  show ?case
  proof (cases "next_iteration mx g b")
    case (Inl out)
    with next_iteration_no_panic(1) [OF Suc.prems, of mx g p] show ?thesis by auto
  next
    case (Inr b1)
    with next_iteration_no_panic(2) [OF Suc.prems Inr] Suc.IH [of b1] show ?thesis by simp
  qed
qed

lemma next_handler_no_panic:
  assumes "- 1 \<le> index b"
  shows "next_handler b \<noteq> Some (Panic p)"
proof
  assume "next_handler b = Some (Panic p)"
  then have ne: "servers b \<noteq> []" and "next_loop (maxWeight b) (weightGcd b) b = Some (Panic p)"
    by (auto simp: next_handler_def split: if_splits)
  then obtain n where "next_loop_bounded n (maxWeight b) (weightGcd b) b = Some (Panic p)"
    using next_loop_imp_bounded by blast
  with next_loop_bounded_no_panic [OF assms ne] show False by blast
qed

lemma next_iteration_level_pos:
  assumes "0 < mx" and "index b = - 1 \<or> 0 < currentWeight b"
  shows "next_iteration mx g b = Inr b' \<Longrightarrow> 0 < currentWeight b'"
    and "next_iteration mx g b = Inl (Ok (r, b')) \<Longrightarrow> 0 < currentWeight b'"
proof -
  have z: "go_rem (index b + 1) (int (length (servers b))) \<noteq> 0 \<Longrightarrow> 0 < currentWeight b"
    using assms(2) by (auto simp: go_rem_def)
  show "next_iteration mx g b = Inr b' \<Longrightarrow> 0 < currentWeight b'"
    using z assms(1) by (auto simp: next_iteration_def Let_def split: if_splits)
  show "next_iteration mx g b = Inl (Ok (r, b')) \<Longrightarrow> 0 < currentWeight b'"
    using z assms(1) by (auto simp: next_iteration_def Let_def split: if_splits)
qed

lemma next_loop_bounded_level_pos:
  "next_loop_bounded n mx g b = Some (Ok (r, b')) \<Longrightarrow> 0 < mx \<Longrightarrow>
     index b = - 1 \<or> 0 < currentWeight b \<Longrightarrow> 0 < currentWeight b'"
proof (induction n arbitrary: b)
  case 0
  then show ?case by simp
next
  case (Suc n)
  show ?case
  proof (cases "next_iteration mx g b")
    case (Inl out)
    with Suc.prems next_iteration_level_pos(2) [of mx b g r b'] show ?thesis by simp
  next
    case (Inr b1)
    with next_iteration_level_pos(1) [OF Suc.prems(2,3) Inr] Suc.prems(1,2) Suc.IH [of b1]
    show ?thesis by simp
  qed
qed

lemma wrr_inv_maxWeight_nonneg:
  assumes "wrr_inv b" and "servers b \<noteq> []"
  shows "0 \<le> maxWeight b"
proof -
  from assms(2) obtain s where "s \<in> set (servers b)" by (cases "servers b") auto
  with assms(1) maxWeight_ge [of s b] show ?thesis by (auto simp: wrr_inv_def)
qed

lemma next_handler_total:
  assumes "wrr_inv b"
  shows "\<exists>r b'. next_handler b = Some (Ok (r, b'))"
proof (cases "servers b = [] \<or> maxWeight b = 0")
  case True
  then show ?thesis by (auto simp: next_handler_def)
next
  case False
  with wrr_inv_maxWeight_nonneg [OF assms] have m: "0 < maxWeight b" by simp
  from next_select [OF assms m] obtain f j b1
    where "next_loop_bounded f (maxWeight b) (weightGcd b) b =
             Some (Ok (Inr (servers b ! j), b1))"
    by blast
  from next_loop_bounded_imp [OF this] False
  show ?thesis by (simp add: next_handler_def)
qed

lemma next_calls_total:
  "wrr_inv b \<Longrightarrow> \<exists>rs. next_calls n b = Some rs"
proof (induction n arbitrary: b)
  case 0
  then show ?case by simp
next
  case (Suc n)
  from next_handler_total [OF Suc.prems] obtain r b'
    where h: "next_handler b = Some (Ok (r, b'))" by blast
  from wrr_inv_next_handler [OF Suc.prems h] Suc.IH obtain rs
    where "next_calls n b' = Some rs" by blast
  with h show ?case by simp
qed

subsection \<open>Evaluating the balancer on an example\<close>

lemmas eval_defs = AddWeightServer_def NewWRRLoadBalancer_def next_handler_def maxWeight_def
  weightGcd_def gcd_go.simps next_loop.simps next_iteration_def go_rem_def wrap64_def
  eval_nat_numeral
  returned_handlers_def selected_indices_def

lemma updater_calls_simps [simp]:
  "updater_calls [] = []"
  "updater_calls (LogDebug s # effs) = updater_calls effs"
  "updater_calls (UpdaterCall fn v # effs) = (fn, v) # updater_calls effs"
  by (simp_all add: updater_calls_def)

lemma updater_calls_map [simp]:
  "updater_calls (map (\<lambda>fn. UpdaterCall fn v) fns) = map (\<lambda>fn. (fn, v)) fns"
  by (induction fns) simp_all

subsection \<open>The cycle of the weights 3 and 1\<close>

text \<open>
  C1 (as amended). A freshly constructed balancer with a weight-3 entry \<open>a\<close> followed by a
  weight-1 entry \<open>c\<close> returns \<open>a, a, a, c\<close> over one cycle of four calls of \<open>next\<close>, and
  the same again over the next cycle: the weight-3 entry is returned in each of the
  three passes (at \<open>currentWeight\<close> 3, 2 and 1), the weight-1 entry only in the last
  one. Entries are interleaved only among those whose weight reaches the level of the
  current pass.
\<close>

theorem wrr_3_1_cycle:
  "map_option returned_handlers
     (next_calls 8 (AddWeightServer (AddWeightServer NewWRRLoadBalancer a (Some 3)) c (Some 1))) =
   Some [Inr a, Inr a, Inr a, Inr c, Inr a, Inr a, Inr a, Inr c]"
  by (simp add: eval_defs)

text \<open>
  The claim as the specification words it excludes exactly this order: on the pool
  \<open>A\<close> (weight 3), \<open>B\<close> (weight 1) the four calls return \<open>A, A, A, B\<close>.
\<close>

theorem wrr_3_1_batched_counterexample:
  "map_option returned_handlers (next_calls 4 pool_3_1) =
     Some [Inr ''A'', Inr ''A'', Inr ''A'', Inr ''B'']"
  by (simp add: pool_3_1_def eval_defs)

subsection \<open>Status reports\<close>

text \<open>
  C3. The claim is that the first \<open>SetStatus\<close> for an unseen child on a balancer made by
  \<open>NewWRRLoadBalancer\<close> stores the flag and returns. The constructor leaves the \<open>status\<close>
  map nil, so the store \<open>b.status[childName] = s\<close> panics instead, for every child name
  and either boolean: no entry is created and the call does not return.
\<close>

theorem SetStatus_fresh_panics:
  "SetStatus NewWRRLoadBalancer childName up = Panic AssignmentToNilMap"
  by (simp add: SetStatus_def NewWRRLoadBalancer_def)

text \<open>
  C8. For a child with an existing status entry holding \<open>cur\<close>, \<open>SetStatus\<close> with \<open>up\<close>
  returns; when \<open>cur = up\<close> the balancer is unchanged and no updater is called; the
  updaters are called (each once, in order, with \<open>up\<close>) exactly when the stored flag
  flips; and the same call repeated right after changes nothing and calls no updater.
\<close>

theorem SetStatus_existing_entry:
  assumes "status b = Some m" and "m childName = Some cur"
  shows "\<exists>effs b'. SetStatus b childName up = Ok (effs, b') \<and>
           b' = (if cur = up then b else b\<lparr>status := Some (m(childName \<mapsto> up))\<rparr>) \<and>
           updater_calls effs = (if cur = up then [] else map (\<lambda>fn. (fn, up)) (updaters b)) \<and>
           (\<exists>effs2. SetStatus b' childName up = Ok (effs2, b') \<and> updater_calls effs2 = [])"
  using assms by (auto simp: SetStatus_def Let_def)

theorem SetStatus_existing_entry_witness:
  "status with_status = Some [''a'' \<mapsto> True] \<and> [''a'' \<mapsto> True] ''a'' = Some True \<and>
   (\<exists>effs. SetStatus with_status ''a'' True = Ok (effs, with_status) \<and> updater_calls effs = []) \<and>
   (\<exists>effs b'. SetStatus with_status ''a'' False = Ok (effs, b') \<and>
      updater_calls effs = [(''parent'', False)] \<and>
      (\<exists>effs2. SetStatus b' ''a'' False = Ok (effs2, b') \<and> updater_calls effs2 = []))"
proof -
  have s: "status with_status = Some [''a'' \<mapsto> True]"
    and u: "updaters with_status = [''parent'']"
    by (simp_all add: with_status_def)
  have m: "[''a'' \<mapsto> True] ''a'' = Some True" by simp
  show ?thesis
    using SetStatus_existing_entry [OF s m, of True]
      SetStatus_existing_entry [OF s m, of False] s m u
    by auto
qed

subsection \<open>What a call of next may change\<close>

text \<open>
  C10. A call of \<open>next\<close> that returns leaves every field of the balancer but \<open>index\<close> and
  \<open>currentWeight\<close> as it was (the servers, the status map, the updaters), and when it
  returns an error it leaves the balancer unchanged altogether.
\<close>

theorem next_handler_frame:
  assumes "next_handler b = Some (Ok (r, b'))"
  shows "b' = b\<lparr>index := index b', currentWeight := currentWeight b'\<rparr> \<and>
         servers b' = servers b \<and> status b' = status b \<and> updaters b' = updaters b \<and>
         (b' = b \<or> (\<exists>srv. r = Inr srv))"
proof -
  have frame: "b' = b\<lparr>index := index b', currentWeight := currentWeight b'\<rparr>"
    using next_handler_cases [OF assms] by (auto simp: selected_def)
  have "servers b' = servers b" "status b' = status b" "updaters b' = updaters b"
    by (subst frame, simp)+
  moreover have "b' = b \<or> (\<exists>srv. r = Inr srv)"
    using next_handler_cases [OF assms] by (auto simp: selected_def)
  ultimately show ?thesis using frame by simp
qed

theorem next_handler_frame_witness:
  "next_handler pool_3_1 =
     Some (Ok (Inr \<lparr>Handler = ''A'', weight = 3\<rparr>, pool_3_1\<lparr>index := 0, currentWeight := 3\<rparr>)) \<and>
   servers (pool_3_1\<lparr>index := 0, currentWeight := 3\<rparr>) = servers pool_3_1 \<and>
   status (pool_3_1\<lparr>index := 0, currentWeight := 3\<rparr>) = status pool_3_1 \<and>
   updaters (pool_3_1\<lparr>index := 0, currentWeight := 3\<rparr>) = updaters pool_3_1 \<and>
   next_handler (NewWRRLoadBalancer :: (string, string) WRRLoadBalancer) =
     Some (Ok (Inl EmptyPoolError, NewWRRLoadBalancer))"
proof -
  have h: "next_handler pool_3_1 =
     Some (Ok (Inr \<lparr>Handler = ''A'', weight = 3\<rparr>, pool_3_1\<lparr>index := 0, currentWeight := 3\<rparr>))"
    by (simp add: pool_3_1_def eval_defs)
  have e: "next_handler (NewWRRLoadBalancer :: (string, string) WRRLoadBalancer) =
     Some (Ok (Inl EmptyPoolError, NewWRRLoadBalancer))"
    by (simp add: eval_defs)
  show ?thesis
    using next_handler_frame [OF h] next_handler_frame [OF e] h e by simp
qed

subsection \<open>Dispatch\<close>

text \<open>
  C9. When \<open>next\<close> returns an error, \<open>ServeTCP\<close> logs that error, closes the connection
  and does nothing else: no handler is called, the balancer is unchanged, and the error
  is one of the two of \<open>next\<close>. When \<open>next\<close> returns an entry, \<open>ServeTCP\<close> hands the
  connection to the handler of exactly that entry (the one at the index \<open>next\<close> stopped
  at) and neither logs nor closes.
\<close>

theorem ServeTCP_dispatch:
  assumes "next_handler b = Some (Ok (r, b'))"
  shows "\<exists>effs. ServeTCP b conn = Some (Ok (effs, b')) \<and>
           (case r of
              Inl err \<Rightarrow> effs = [LogError err, ConnClose conn] \<and> b' = b \<and>
                         (err = EmptyPoolError \<or> err = AllZeroWeightError)
            | Inr srv \<Rightarrow> effs = [HandlerServeTCP (Handler srv) conn] \<and>
                         srv = servers b ! nat (index b') \<and>
                         0 \<le> index b' \<and> index b' < int (length (servers b)))"
  using next_handler_cases [OF assms] assms
  by (auto simp: ServeTCP_def selected_def split: sum.splits)

theorem ServeTCP_dispatch_witness:
  "ServeTCP pool_3_1 ''conn'' =
     Some (Ok ([HandlerServeTCP ''A'' ''conn''], pool_3_1\<lparr>index := 0, currentWeight := 3\<rparr>)) \<and>
   ServeTCP (NewWRRLoadBalancer :: (string, string) WRRLoadBalancer) ''conn'' =
     Some (Ok ([LogError EmptyPoolError, ConnClose ''conn''], NewWRRLoadBalancer))"
proof -
  have h: "next_handler pool_3_1 =
     Some (Ok (Inr \<lparr>Handler = ''A'', weight = 3\<rparr>, pool_3_1\<lparr>index := 0, currentWeight := 3\<rparr>))"
    by (simp add: pool_3_1_def eval_defs)
  have e: "next_handler (NewWRRLoadBalancer :: (string, string) WRRLoadBalancer) =
     Some (Ok (Inl EmptyPoolError, NewWRRLoadBalancer))"
    by (simp add: eval_defs)
  show ?thesis
    using ServeTCP_dispatch [OF h, of "''conn''"] ServeTCP_dispatch [OF e, of "''conn''"]
    by auto
qed

subsection \<open>The errors of next\<close>

lemma wrr_inv_pool_3_1: "wrr_inv pool_3_1"
  by (simp add: pool_3_1_def wrr_inv_def eval_defs)

text \<open>
  C2 (as amended). \<open>next\<close> returns an error exactly when the pool is empty
  (\<open>EmptyPoolError\<close>) or \<open>maxWeight\<close>, which starts from \<open>-1\<close>, is exactly 0
  (\<open>AllZeroWeightError\<close>): no weight is positive and at least one is 0. An error leaves
  the balancer unchanged. No panic comes out of the selection when the index is at
  least \<open>-1\<close> (and \<open>index + 1\<close> is a 64-bit value). On every pool of non-negative weights with at least one positive weight,
  in a state the balancer reaches, \<open>next\<close> returns an entry. A pool whose weights are
  all negative is not rejected: its \<open>maxWeight\<close> is \<open>-1\<close> and \<open>next\<close> enters the loop.
\<close>

theorem next_handler_errors:
  "((next_handler b = Some (Ok (Inl e, b'))) =
      (b' = b \<and> (if servers b = [] then e = EmptyPoolError
                  else e = AllZeroWeightError \<and> maxWeight b = 0))) \<and>
   ((maxWeight b = 0) =
      ((\<forall>s \<in> set (servers b). weight s \<le> 0) \<and> (\<exists>s \<in> set (servers b). weight s = 0))) \<and>
   (- 1 \<le> index b \<and> index b < 2 ^ 63 - 1 \<longrightarrow> next_handler b \<noteq> Some (Panic p)) \<and>
   (wrr_inv b \<longrightarrow> (\<exists>s \<in> set (servers b). 0 < weight s) \<longrightarrow>
      (\<exists>srv b1. next_handler b = Some (Ok (Inr srv, b1))))"
proof (intro conjI impI)
  show "(next_handler b = Some (Ok (Inl e, b'))) =
      (b' = b \<and> (if servers b = [] then e = EmptyPoolError
                  else e = AllZeroWeightError \<and> maxWeight b = 0))"
  proof
    assume "next_handler b = Some (Ok (Inl e, b'))"
    from next_handler_cases [OF this]
    show "b' = b \<and> (if servers b = [] then e = EmptyPoolError
                  else e = AllZeroWeightError \<and> maxWeight b = 0)"
      by (auto simp: selected_def)
  next
    assume "b' = b \<and> (if servers b = [] then e = EmptyPoolError
                  else e = AllZeroWeightError \<and> maxWeight b = 0)"
    then show "next_handler b = Some (Ok (Inl e, b'))"
      by (auto simp: next_handler_def split: if_splits)
  qed
  show "(maxWeight b = 0) =
      ((\<forall>s \<in> set (servers b). weight s \<le> 0) \<and> (\<exists>s \<in> set (servers b). weight s = 0))"
    by (rule maxWeight_zero_iff)
  show "next_handler b \<noteq> Some (Panic p)" if "- 1 \<le> index b \<and> index b < 2 ^ 63 - 1"
    using that by (intro next_handler_no_panic) simp
  show "\<exists>srv b1. next_handler b = Some (Ok (Inr srv, b1))"
    if inv: "wrr_inv b" and pos: "\<exists>s \<in> set (servers b). 0 < weight s"
  proof -
    from pos have m: "0 < maxWeight b" by (simp add: maxWeight_pos_iff)
    then have ne: "servers b \<noteq> []" by (auto simp: maxWeight_def)
    from next_select [OF inv m] obtain f j b1
      where "next_loop_bounded f (maxWeight b) (weightGcd b) b =
               Some (Ok (Inr (servers b ! j), b1))"
      by blast
    from next_loop_bounded_imp [OF this] ne m
    have "next_handler b = Some (Ok (Inr (servers b ! j), b1))"
      by (simp add: next_handler_def)
    then show ?thesis by blast
  qed
qed

theorem next_handler_errors_witness:
  "wrr_inv pool_3_1 \<and> (\<exists>s \<in> set (servers pool_3_1). 0 < weight s) \<and>
   (\<exists>srv b1. next_handler pool_3_1 = Some (Ok (Inr srv, b1))) \<and>
   next_handler pool_0_0 = Some (Ok (Inl AllZeroWeightError, pool_0_0)) \<and>
   next_handler (NewWRRLoadBalancer :: (string, string) WRRLoadBalancer) =
     Some (Ok (Inl EmptyPoolError, NewWRRLoadBalancer))"
proof -
  have p: "\<exists>s \<in> set (servers pool_3_1). 0 < weight s"
    by (simp add: pool_3_1_def eval_defs)
  have z: "servers pool_0_0 \<noteq> []" "maxWeight pool_0_0 = 0"
    by (simp_all add: pool_0_0_def eval_defs)
  have n: "servers (NewWRRLoadBalancer :: (string, string) WRRLoadBalancer) = []"
    by (simp add: NewWRRLoadBalancer_def)
  have s: "\<exists>srv b1. next_handler pool_3_1 = Some (Ok (Inr srv, b1))"
    using next_handler_errors [of pool_3_1] wrr_inv_pool_3_1 p by blast
  have a: "next_handler pool_0_0 = Some (Ok (Inl AllZeroWeightError, pool_0_0))"
    using next_handler_errors [of pool_0_0 AllZeroWeightError pool_0_0] z by simp
  have e: "next_handler (NewWRRLoadBalancer :: (string, string) WRRLoadBalancer) =
     Some (Ok (Inl EmptyPoolError, NewWRRLoadBalancer))"
    using next_handler_errors
      [of "NewWRRLoadBalancer :: (string, string) WRRLoadBalancer" EmptyPoolError NewWRRLoadBalancer] n
    by simp
  show ?thesis
    using wrr_inv_pool_3_1 p s a e by simp
qed

text \<open>
  The pool with the single weight \<open>-1\<close> is not empty and has no positive weight, yet
  \<open>next\<close> does not return \<open>AllZeroWeightError\<close> on it: the loop runs, and has not
  returned after 40 passes.
\<close>

theorem all_negative_pool_counterexample:
  "map weight (servers pool_neg1) = [- 1] \<and>
   maxWeight pool_neg1 = - 1 \<and>
   next_handler pool_neg1 \<noteq> Some (Ok (Inl AllZeroWeightError, pool_neg1)) \<and>
   next_loop_bounded 40 (maxWeight pool_neg1) (weightGcd pool_neg1) pool_neg1 = None"
proof -
  have m: "maxWeight pool_neg1 = - 1" and ne: "servers pool_neg1 \<noteq> []"
    and neg: "map weight (servers pool_neg1) = [- 1]"
    by (simp_all add: pool_neg1_def eval_defs)
  have "next_handler pool_neg1 \<noteq> Some (Ok (Inl AllZeroWeightError, pool_neg1))"
  proof
    assume "next_handler pool_neg1 = Some (Ok (Inl AllZeroWeightError, pool_neg1))"
    from next_handler_cases [OF this] m ne show False by (simp add: selected_def)
  qed
  moreover have "next_loop_bounded 40 (maxWeight pool_neg1) (weightGcd pool_neg1) pool_neg1 = None"
    by (simp add: pool_neg1_def eval_defs)
  ultimately show ?thesis using m ne neg by simp
qed

subsection \<open>The number of passes of the loop\<close>

text \<open>
  C5 (as amended). On a pool of non-negative weights with a positive greatest weight, in
  a state the balancer reaches (\<open>wrr_inv\<close>), the loop of \<open>next\<close> returns an entry within
  as many passes as the pool has entries, that entry is what \<open>next\<close> returns, and the
  balancer is left in such a state again.
\<close>

theorem next_loop_within_pool_size:
  assumes "wrr_inv b" and "0 < maxWeight b"
  shows "\<exists>srv b'. next_loop_bounded (length (servers b)) (maxWeight b) (weightGcd b) b =
                     Some (Ok (Inr srv, b')) \<and>
                   next_handler b = Some (Ok (Inr srv, b')) \<and> wrr_inv b'"
proof -
  from assms(2) have ne: "servers b \<noteq> []" by (auto simp: maxWeight_def)
  from next_select [OF assms] obtain f j b'
    where f: "f \<le> length (servers b)"
      and bd: "next_loop_bounded f (maxWeight b) (weightGcd b) b =
                 Some (Ok (Inr (servers b ! j), b'))"
      and inv: "wrr_inv b'"
    by blast
  from next_loop_bounded_mono [OF bd, of "length (servers b) - f"] f
  have "next_loop_bounded (length (servers b)) (maxWeight b) (weightGcd b) b =
          Some (Ok (Inr (servers b ! j), b'))"
    by simp
  moreover from next_loop_bounded_imp [OF bd] ne assms(2)
  have "next_handler b = Some (Ok (Inr (servers b ! j), b'))"
    by (simp add: next_handler_def)
  ultimately show ?thesis using inv by blast
qed

theorem next_loop_within_pool_size_witness:
  "wrr_inv pool_3_1 \<and> 0 < maxWeight pool_3_1 \<and> length (servers pool_3_1) = 2 \<and>
   (\<exists>srv b'. next_loop_bounded 2 (maxWeight pool_3_1) (weightGcd pool_3_1) pool_3_1 =
                Some (Ok (Inr srv, b')) \<and>
              next_handler pool_3_1 = Some (Ok (Inr srv, b')) \<and> wrr_inv b')"
proof -
  have m: "0 < maxWeight pool_3_1" and l: "length (servers pool_3_1) = 2"
    by (simp_all add: pool_3_1_def eval_defs)
  show ?thesis
    using next_loop_within_pool_size [OF wrr_inv_pool_3_1 m] wrr_inv_pool_3_1 m l by simp
qed

text \<open>
  With a negative weight in the pool the bound fails. On the weights \<open>-2, 4\<close> the GCD
  loop yields \<open>-2\<close>, so each wrap raises \<open>currentWeight\<close> by 2. After two calls from the
  fresh balancer it is 4, the greatest weight is 4 and the pool is not empty; the loop
  of the third call returns neither within 2 passes nor within 40.
\<close>

theorem next_loop_negative_weight_counterexample:
  "next_calls 2 pool_neg2_4 =
     Some [(Inr \<lparr>Handler = ''B'', weight = 4\<rparr>, pool_neg2_4\<lparr>index := 1, currentWeight := 2\<rparr>),
           (Inr \<lparr>Handler = ''B'', weight = 4\<rparr>, pool_neg2_4\<lparr>index := 1, currentWeight := 4\<rparr>)] \<and>
   servers (pool_neg2_4\<lparr>index := 1, currentWeight := 4\<rparr>) \<noteq> [] \<and>
   0 < maxWeight (pool_neg2_4\<lparr>index := 1, currentWeight := 4\<rparr>) \<and>
   next_loop_bounded (length (servers (pool_neg2_4\<lparr>index := 1, currentWeight := 4\<rparr>)))
     (maxWeight (pool_neg2_4\<lparr>index := 1, currentWeight := 4\<rparr>))
     (weightGcd (pool_neg2_4\<lparr>index := 1, currentWeight := 4\<rparr>))
     (pool_neg2_4\<lparr>index := 1, currentWeight := 4\<rparr>) = None \<and>
   next_loop_bounded 40
     (maxWeight (pool_neg2_4\<lparr>index := 1, currentWeight := 4\<rparr>))
     (weightGcd (pool_neg2_4\<lparr>index := 1, currentWeight := 4\<rparr>))
     (pool_neg2_4\<lparr>index := 1, currentWeight := 4\<rparr>) = None"
  by (simp add: pool_neg2_4_def eval_defs)

subsection \<open>Entries of weight 0\<close>

text \<open>
  C7 (as amended). On a pool with at least one positive weight, in a state where the
  index is \<open>-1\<close> (as constructed) or \<open>currentWeight\<close> is positive (as it is in every state
  reached with weights that are not negative), whatever \<open>next\<close> returns is an entry of
  the pool with a positive weight, never an error and never an entry of weight 0, and
  \<open>currentWeight\<close> is positive afterwards. When the other weights are 0 or positive
  (\<open>wrr_inv\<close>), \<open>next\<close> does return.
\<close>

theorem zero_weight_never_selected:
  assumes "\<exists>s \<in> set (servers b). 0 < weight s"
    and "index b = - 1 \<or> 0 < currentWeight b"
  shows "(\<forall>r b'. next_handler b = Some (Ok (r, b')) \<longrightarrow>
            (\<exists>srv. r = Inr srv \<and> 0 < weight srv \<and> srv \<in> set (servers b)) \<and>
            0 < currentWeight b') \<and>
         (wrr_inv b \<longrightarrow> (\<exists>srv b'. next_handler b = Some (Ok (Inr srv, b')) \<and> 0 < weight srv))"
proof -
  from assms(1) have m: "0 < maxWeight b" by (simp add: maxWeight_pos_iff)
  then have ne: "servers b \<noteq> []" by (auto simp: maxWeight_def)
  have safe: "(\<exists>srv. r = Inr srv \<and> 0 < weight srv \<and> srv \<in> set (servers b)) \<and> 0 < currentWeight b'"
    if h: "next_handler b = Some (Ok (r, b'))" for r b'
  proof -
    from h ne m have l: "next_loop (maxWeight b) (weightGcd b) b = Some (Ok (r, b'))"
      by (simp add: next_handler_def)
    then obtain n where "next_loop_bounded n (maxWeight b) (weightGcd b) b = Some (Ok (r, b'))"
      using next_loop_imp_bounded by blast
    from next_loop_bounded_level_pos [OF this m assms(2)] have c: "0 < currentWeight b'" .
    from next_loop_selected [OF l] have s: "selected b r b'" .
    then have "nat (index b') < length (servers b)"
      by (simp add: selected_def nat_less_iff)
    then have "servers b ! nat (index b') \<in> set (servers b)"
      by (rule nth_mem)
    with s c show ?thesis by (auto simp: selected_def)
  qed
  moreover have "\<exists>srv b'. next_handler b = Some (Ok (Inr srv, b')) \<and> 0 < weight srv" if "wrr_inv b"
  proof -
    from next_select [OF that m] obtain f j b1
      where "next_loop_bounded f (maxWeight b) (weightGcd b) b =
               Some (Ok (Inr (servers b ! j), b1))"
      by blast
    from next_loop_bounded_imp [OF this] ne m
    have h: "next_handler b = Some (Ok (Inr (servers b ! j), b1))"
      by (simp add: next_handler_def)
    with safe [OF h] show ?thesis by auto
  qed
  ultimately show ?thesis by blast
qed

theorem zero_weight_never_selected_witness:
  "(\<exists>s \<in> set (servers pool_0_2). 0 < weight s) \<and> index pool_0_2 = - 1 \<and> wrr_inv pool_0_2 \<and>
   next_handler pool_0_2 =
     Some (Ok (Inr \<lparr>Handler = ''B'', weight = 2\<rparr>, pool_0_2\<lparr>index := 1, currentWeight := 2\<rparr>)) \<and>
   (\<exists>srv b'. next_handler pool_0_2 = Some (Ok (Inr srv, b')) \<and> 0 < weight srv)"
proof -
  have p: "\<exists>s \<in> set (servers pool_0_2). 0 < weight s" and i: "index pool_0_2 = - 1"
    and w: "wrr_inv pool_0_2"
    by (simp_all add: pool_0_2_def wrr_inv_def eval_defs)
  have h: "next_handler pool_0_2 =
     Some (Ok (Inr \<lparr>Handler = ''B'', weight = 2\<rparr>, pool_0_2\<lparr>index := 1, currentWeight := 2\<rparr>))"
    by (simp add: pool_0_2_def eval_defs)
  from i have i': "index pool_0_2 = - 1 \<or> 0 < currentWeight pool_0_2" by simp
  show ?thesis
    using zero_weight_never_selected [OF p i'] p i w h by blast
qed

text \<open>
  Without the condition on \<open>currentWeight\<close> the claim fails, in a state reached through
  \<open>AddWeightServer\<close> and \<open>next\<close> alone. On the weights \<open>-1\<close> and \<open>-2^62\<close> the greatest
  weight is \<open>-1\<close> and the divisor \<open>-2^62\<close>: the first call raises \<open>currentWeight\<close> to
  \<open>2^62\<close>, the next wrap overflows to \<open>-2^63\<close> and resets it to \<open>-1\<close>, and the entry of
  weight \<open>-1\<close> is returned, leaving index 0 and \<open>currentWeight\<close> \<open>-1\<close>. With entries of
  weight 0 and 5 appended the pool has a positive weight, and the next call returns the
  entry of weight 0.
\<close>

theorem zero_weight_selected_counterexample:
  "next_handler pool_neg_wrap =
     Some (Ok (Inr \<lparr>Handler = ''A'', weight = - 1\<rparr>,
               pool_neg_wrap\<lparr>index := 0, currentWeight := - 1\<rparr>)) \<and>
   map weight (servers pool_after_wrap) = [- 1, - (2 ^ 62), 0, 5] \<and>
   next_handler pool_after_wrap =
     Some (Ok (Inr \<lparr>Handler = ''C'', weight = 0\<rparr>,
               pool_after_wrap\<lparr>index := 2, currentWeight := - 1\<rparr>))"
  by (simp add: pool_after_wrap_def pool_neg_wrap_def eval_defs Let_def)

subsection \<open>Weights with a common factor\<close>

lemma foldl_max_scaled:
  assumes "0 < k"
  shows "foldl (\<lambda>mx s. if weight s > mx then weight s else mx) (k * m) (map (scale_server k) xs) =
         k * foldl (\<lambda>mx s. if weight s > mx then weight s else mx) m xs"
  using assms by (induction xs arbitrary: m) (simp_all add: scale_server_def)

lemma maxWeight_scaled:
  assumes "0 < k" and "servers b \<noteq> []" and "\<forall>s \<in> set (servers b). 0 \<le> weight s"
  shows "maxWeight (scaled k b) = k * maxWeight b"
proof -
  from assms(2) obtain x xs where xs: "servers b = x # xs" by (cases "servers b") auto
  with assms(3) have "0 \<le> weight x" by simp
  then have "0 \<le> k * weight x" using assms(1) by simp
  then show ?thesis
    using \<open>0 \<le> weight x\<close> foldl_max_scaled [OF assms(1), of "weight x" xs]
    by (simp add: maxWeight_def scaled_def xs scale_server_def)
qed

lemma weightGcd_scaled:
  assumes "0 < k" and "servers b \<noteq> []" and "\<forall>s \<in> set (servers b). 0 \<le> weight s"
  shows "weightGcd (scaled k b) = k * weightGcd b"
proof -
  have ne: "servers (scaled k b) \<noteq> []" using assms(2) by (simp add: scaled_def)
  have nonneg: "\<forall>s \<in> set (servers (scaled k b)). 0 \<le> weight s"
    using assms(1,3) by (simp add: scaled_def scale_server_def)
  have "weight ` set (servers (scaled k b)) = (*) k ` weight ` set (servers b)"
    by (auto simp: scaled_def scale_server_def image_iff)
  then have "weightGcd (scaled k b) = Gcd ((*) k ` weight ` set (servers b))"
    using weightGcd_Gcd [OF ne nonneg] by simp
  also have "\<dots> = \<bar>k * Gcd (weight ` set (servers b))\<bar>"
    by (simp add: Gcd_mult)
  also have "\<dots> = k * Gcd (weight ` set (servers b))"
    using assms(1) by (simp add: abs_mult)
  finally show ?thesis using weightGcd_Gcd [OF assms(2,3)] by simp
qed

lemma wrap64_scaled:
  assumes "0 < k" and "0 \<le> c" and "k * c < 2 ^ 63" and "0 \<le> g" and "k * g < 2 ^ 63"
  shows "wrap64 (k * c - k * g) = k * (c - g)" and "wrap64 (c - g) = c - g"
proof -
  have kc: "c \<le> k * c" and kg: "g \<le> k * g"
    using assms(1,2,4) by (simp_all add: mult_le_cancel_right1)
  have "k * (c - g) \<le> k * c" using assms(1,4) by simp
  moreover have "- (k * g) \<le> k * (c - g)" using assms(1,2) by (simp add: right_diff_distrib)
  ultimately have "wrap64 (k * (c - g)) = k * (c - g)"
    using assms(3,5) by (intro wrap64_id) simp_all
  then show "wrap64 (k * c - k * g) = k * (c - g)" by (simp add: right_diff_distrib)
  show "wrap64 (c - g) = c - g"
    using kc kg assms by (intro wrap64_id) simp_all
qed

lemma next_iteration_scaled:
  assumes "0 < k" and "0 \<le> currentWeight b" and "k * currentWeight b < 2 ^ 63"
    and "0 \<le> g" and "k * g < 2 ^ 63"
  shows "next_iteration (k * mx) (k * g) (scaled k b) =
           (case next_iteration mx g b of
              Inl out \<Rightarrow> Inl (scaled_outcome k out)
            | Inr b' \<Rightarrow> Inr (scaled k b'))"
proof -
  note w = wrap64_scaled [OF assms]
  define idx where "idx = go_rem (index b + 1) (int (length (servers b)))"
  define cw where "cw = (if idx = 0
                then (if wrap64 (currentWeight b - g) \<le> 0 then mx
                      else wrap64 (currentWeight b - g))
                else currentWeight b)"
  have le: "k * x \<le> 0 \<longleftrightarrow> x \<le> 0" "k * x \<le> k * y \<longleftrightarrow> x \<le> y" for x y :: int
    using assms(1) by (simp_all add: mult_le_0_iff)
  have cw1: "(if idx = 0
                then (if wrap64 (k * currentWeight b - k * g) \<le> 0 then k * mx
                      else wrap64 (k * currentWeight b - k * g))
                else k * currentWeight b) = k * cw"
    by (simp add: cw_def w le)
  have f: "servers (scaled k b) = map (scale_server k) (servers b)"
    "index (scaled k b) = index b" "currentWeight (scaled k b) = k * currentWeight b"
    by (simp_all add: scaled_def)
  have u2: "next_iteration mx g b =
      (if idx < 0 \<or> int (length (servers b)) \<le> idx then Inl (Panic IndexOutOfRange)
       else if cw \<le> weight (servers b ! nat idx)
            then Inl (Ok (Inr (servers b ! nat idx), b\<lparr>index := idx, currentWeight := cw\<rparr>))
            else Inr (b\<lparr>index := idx, currentWeight := cw\<rparr>))"
    by (simp add: next_iteration_def Let_def idx_def cw_def)
  have "next_iteration (k * mx) (k * g) (scaled k b) =
      (if idx < 0 \<or> int (length (servers b)) \<le> idx then Inl (Panic IndexOutOfRange)
       else if k * cw \<le> weight (map (scale_server k) (servers b) ! nat idx)
            then Inl (Ok (Inr (map (scale_server k) (servers b) ! nat idx),
                   (scaled k b)\<lparr>index := idx, currentWeight := k * cw\<rparr>))
            else Inr ((scaled k b)\<lparr>index := idx, currentWeight := k * cw\<rparr>))"
    unfolding next_iteration_def Let_def f length_map idx_def [symmetric] cw1 ..
  note u1 = this
  have st: "(scaled k b)\<lparr>index := idx, currentWeight := k * cw\<rparr> =
            scaled k (b\<lparr>index := idx, currentWeight := cw\<rparr>)"
    by (simp add: scaled_def)
  show ?thesis
  proof (cases "idx < 0 \<or> int (length (servers b)) \<le> idx")
    case True
    then show ?thesis by (simp add: u1 u2 scaled_outcome_def)
  next
    case False
    then have "nat idx < length (servers b)" by (simp add: nat_less_iff)
    then have nth: "map (scale_server k) (servers b) ! nat idx = scale_server k (servers b ! nat idx)"
      by simp
    have "weight (scale_server k (servers b ! nat idx)) = k * weight (servers b ! nat idx)"
      by (simp add: scale_server_def)
    then show ?thesis
      using False by (simp add: u1 u2 nth st le scaled_outcome_def)
  qed
qed

lemma next_iteration_level_range:
  assumes "0 \<le> currentWeight b" and "k * currentWeight b < 2 ^ 63" and "0 < k"
    and "0 \<le> g" and "k * g < 2 ^ 63" and "0 \<le> mx" and "k * mx < 2 ^ 63"
    and "next_iteration mx g b = Inr b'"
  shows "0 \<le> currentWeight b' \<and> k * currentWeight b' < 2 ^ 63"
proof -
  have w: "wrap64 (currentWeight b - g) = currentWeight b - g"
    by (rule wrap64_scaled(2) [OF assms(3,1,2,4,5)])
  have "k * (currentWeight b - g) \<le> k * currentWeight b"
    using assms(3,4) by simp
  then have "k * (currentWeight b - g) < 2 ^ 63" using assms(2) by simp
  then show ?thesis
    using assms(1,2,6,7,8)
    by (auto simp: next_iteration_def Let_def w split: if_splits)
qed

lemma next_loop_bounded_scaled:
  assumes "0 < k" and "0 \<le> g" and "k * g < 2 ^ 63" and "0 \<le> mx" and "k * mx < 2 ^ 63"
  shows "0 \<le> currentWeight b \<Longrightarrow> k * currentWeight b < 2 ^ 63 \<Longrightarrow>
         next_loop_bounded n (k * mx) (k * g) (scaled k b) =
           map_option (scaled_outcome k) (next_loop_bounded n mx g b)"
proof (induction n arbitrary: b)
  case 0
  then show ?case by simp
next
  case (Suc n)
  note it = next_iteration_scaled [OF assms(1) Suc.prems assms(2,3), of mx]
  show ?case
  proof (cases "next_iteration mx g b")
    case (Inl out)
    with it show ?thesis by simp
  next
    case (Inr b1)
    from next_iteration_level_range [OF Suc.prems assms Inr]
    have "next_loop_bounded n (k * mx) (k * g) (scaled k b1) =
            map_option (scaled_outcome k) (next_loop_bounded n mx g b1)"
      by (intro Suc.IH) simp_all
    with it Inr show ?thesis by simp
  qed
qed

lemma next_handler_scaled:
  assumes "0 < k" and "wrr_inv b" and "\<forall>s \<in> set (servers b). k * weight s < 2 ^ 63"
  shows "next_handler (scaled k b) = map_option (scaled_outcome k) (next_handler b)"
proof (cases "servers b = []")
  case True
  then show ?thesis by (simp add: next_handler_def scaled_def scaled_outcome_def)
next
  case ne: False
  have nonneg: "\<forall>s \<in> set (servers b). 0 \<le> weight s" using assms(2) by (simp add: wrr_inv_def)
  note mxs = maxWeight_scaled [OF assms(1) ne nonneg]
  note gs = weightGcd_scaled [OF assms(1) ne nonneg]
  have ne': "servers (scaled k b) \<noteq> []" using ne by (simp add: scaled_def)
  show ?thesis
  proof (cases "maxWeight b = 0")
    case True
    with ne ne' mxs show ?thesis
      by (simp add: next_handler_def scaled_outcome_def)
  next
    case False
    with wrr_inv_maxWeight_nonneg [OF assms(2) ne] have m: "0 < maxWeight b" by simp
    note g = wrr_inv_gcd [OF assms(2) m]
    from maxWeight_attained [of b] m obtain j
      where j: "j < length (servers b)" "weight (servers b ! j) = maxWeight b" by auto
    with assms(3) have kmx: "k * maxWeight b < 2 ^ 63" by (metis nth_mem)
    have "k * weightGcd b \<le> k * maxWeight b" using g(2) assms(1) by simp
    with kmx have kg: "k * weightGcd b < 2 ^ 63" by simp
    have c: "0 \<le> currentWeight b" "currentWeight b \<le> maxWeight b"
      using assms(2) m by (simp_all add: wrr_inv_def)
    have "k * currentWeight b \<le> k * maxWeight b" using c(2) assms(1) by simp
    with kmx have kc: "k * currentWeight b < 2 ^ 63" by simp
    from next_select [OF assms(2) m] obtain f i b1
      where bd: "next_loop_bounded f (maxWeight b) (weightGcd b) b =
               Some (Ok (Inr (servers b ! i), b1))"
      by blast
    have "next_loop_bounded f (k * maxWeight b) (k * weightGcd b) (scaled k b) =
            map_option (scaled_outcome k) (next_loop_bounded f (maxWeight b) (weightGcd b) b)"
      using assms(1) g(1) kg m kmx c(1) kc
      by (intro next_loop_bounded_scaled) simp_all
    with bd have "next_loop_bounded f (k * maxWeight b) (k * weightGcd b) (scaled k b) =
            Some (scaled_outcome k (Ok (Inr (servers b ! i), b1)))"
      by simp
    from next_loop_bounded_imp [OF this] next_loop_bounded_imp [OF bd] ne ne' m assms(1)
    show ?thesis by (simp add: next_handler_def mxs gs)
  qed
qed

lemma next_handler_servers:
  "next_handler b = Some (Ok (r, b')) \<Longrightarrow> servers b' = servers b"
proof -
  assume "next_handler b = Some (Ok (r, b'))"
  from next_handler_cases [OF this]
  have "b' = b\<lparr>index := index b', currentWeight := currentWeight b'\<rparr>"
    by (auto simp: selected_def)
  then show ?thesis by (metis WRRLoadBalancer.select_convs(1) WRRLoadBalancer.surjective
      WRRLoadBalancer.update_convs(2,3))
qed

lemma next_calls_scaled:
  assumes "0 < k"
  shows "wrr_inv b \<Longrightarrow> \<forall>s \<in> set (servers b). k * weight s < 2 ^ 63 \<Longrightarrow>
         next_calls n (scaled k b) =
           map_option (map (\<lambda>(r, b'). (map_sum id (scale_server k) r, scaled k b')))
             (next_calls n b)"
proof (induction n arbitrary: b)
  case 0
  then show ?case by simp
next
  case (Suc n)
  from next_handler_total [OF Suc.prems(1)] obtain r b'
    where h: "next_handler b = Some (Ok (r, b'))" by blast
  have hs: "next_handler (scaled k b) = Some (Ok (map_sum id (scale_server k) r, scaled k b'))"
    using next_handler_scaled [OF assms Suc.prems] h by (simp add: scaled_outcome_def)
  have "next_calls n (scaled k b') =
           map_option (map (\<lambda>(r, b'). (map_sum id (scale_server k) r, scaled k b')))
             (next_calls n b')"
    using wrr_inv_next_handler [OF Suc.prems(1) h] next_handler_servers [OF h] Suc.prems(2)
    by (intro Suc.IH) simp_all
  with h hs show ?case by (cases "next_calls n b'") (simp_all add: id_def)
qed

lemma wrr_inv_pool_2_1: "wrr_inv pool_2_1"
  by (simp add: pool_2_1_def wrr_inv_def eval_defs)

text \<open>
  C6 (as amended). Take a pool of non-negative weights in a state the balancer reaches,
  and the pool with every weight multiplied by a common factor \<open>k > 0\<close> (within the
  64-bit range), started from the corresponding iteration state: the same index and
  \<open>k\<close> times the \<open>currentWeight\<close>, which for two freshly constructed balancers is the
  same state. Any number of successive calls of \<open>next\<close> then returns on both, with the
  same index and the same handler (or error) at every call.
\<close>

theorem scaled_weights_same_selection:
  assumes "0 < k" and "wrr_inv b" and "\<forall>s \<in> set (servers b). k * weight s < 2 ^ 63"
  shows "\<exists>rs rs'. next_calls n b = Some rs \<and> next_calls n (scaled k b) = Some rs' \<and>
           selected_indices rs' = selected_indices rs \<and>
           returned_handlers rs' = returned_handlers rs"
proof -
  from next_calls_total [OF assms(2)] obtain rs where rs: "next_calls n b = Some rs" by blast
  let ?rs' = "map (\<lambda>(r, b'). (map_sum id (scale_server k) r, scaled k b')) rs"
  have "next_calls n (scaled k b) = Some ?rs'"
    using next_calls_scaled [OF assms, of n] rs by simp
  moreover have "selected_indices ?rs' = selected_indices rs"
    by (simp add: selected_indices_def scaled_def split_def)
  moreover have "returned_handlers ?rs' = returned_handlers rs"
    by (simp add: returned_handlers_def scale_server_def split_def sum.map_comp comp_def id_def)
  ultimately show ?thesis using rs by blast
qed

theorem scaled_weights_same_selection_witness:
  "(0::int) < 2 \<and> wrr_inv pool_2_1 \<and> map weight (servers pool_2_1) = [2, 1] \<and>
   scaled 2 pool_2_1 = pool_4_2 \<and>
   (\<exists>rs rs'. next_calls 6 pool_2_1 = Some rs \<and> next_calls 6 pool_4_2 = Some rs' \<and>
           selected_indices rs' = selected_indices rs \<and>
           returned_handlers rs' = returned_handlers rs)"
proof -
  have k: "(0::int) < 2" by simp
  have r: "\<forall>s \<in> set (servers pool_2_1). 2 * weight s < 2 ^ 63"
    by (simp add: pool_2_1_def eval_defs)
  have e: "scaled 2 pool_2_1 = pool_4_2"
    by (simp add: scaled_def scale_server_def pool_2_1_def pool_4_2_def eval_defs)
  have w: "map weight (servers pool_2_1) = [2, 1]"
    by (simp add: pool_2_1_def eval_defs)
  show ?thesis
    using scaled_weights_same_selection [OF k wrr_inv_pool_2_1 r, of 6] k w e wrr_inv_pool_2_1
    by simp
qed

text \<open>
  From the same index and the same non-zero \<open>currentWeight\<close> the two pools part: the
  state with index 0 and \<open>currentWeight\<close> 2 is reached on the weights \<open>4, 2\<close> after two
  calls and on the weights \<open>2, 1\<close> after one, and from it the first returns \<open>B, A, A\<close>
  and the second \<open>A, B, A\<close>. With a negative weight they part even from the fresh
  state: the weights \<open>-3, 12, 6\<close> are three times \<open>-1, 4, 2\<close>, and the two fresh
  balancers return \<open>B, C\<close> and \<open>B, B\<close>.
\<close>

theorem equal_state_counterexample:
  "map_option (map (\<lambda>(r, b'). (index b', currentWeight b'))) (next_calls 2 pool_4_2) =
     Some [(0, 4), (0, 2)] \<and>
   map_option (map (\<lambda>(r, b'). (index b', currentWeight b'))) (next_calls 1 pool_2_1) =
     Some [(0, 2)] \<and>
   map_option returned_handlers (next_calls 3 (pool_4_2\<lparr>index := 0, currentWeight := 2\<rparr>)) =
     Some [Inr ''B'', Inr ''A'', Inr ''A''] \<and>
   map_option returned_handlers (next_calls 3 (pool_2_1\<lparr>index := 0, currentWeight := 2\<rparr>)) =
     Some [Inr ''A'', Inr ''B'', Inr ''A''] \<and>
   servers pool_neg3_12_6 = map (scale_server 3) (servers pool_neg1_4_2) \<and>
   map_option returned_handlers (next_calls 2 pool_neg3_12_6) = Some [Inr ''B'', Inr ''C''] \<and>
   map_option returned_handlers (next_calls 2 pool_neg1_4_2) = Some [Inr ''B'', Inr ''B'']"
  by (simp add: pool_4_2_def pool_2_1_def pool_neg3_12_6_def pool_neg1_4_2_def scale_server_def
      eval_defs)

subsection \<open>The cycle of a pool\<close>

lemma balancer_after_Nil [simp]: "balancer_after b [] = b"
  by (simp add: balancer_after_def)

lemma balancer_after_Cons [simp]: "balancer_after b ((r, b1) # rs) = balancer_after b1 rs"
  by (simp add: balancer_after_def)

lemma balancer_after_append [simp]:
  "balancer_after b (rs @ rs') = balancer_after (balancer_after b rs) rs'"
  by (induction rs arbitrary: b) auto


lemma selected_indices_simps [simp]:
  "selected_indices [] = []"
  "selected_indices ((r, b1) # rs) = index b1 # selected_indices rs"
  "selected_indices (rs @ rs') = selected_indices rs @ selected_indices rs'"
  by (simp_all add: selected_indices_def)

lemma servers_frame [simp]:
  "qualifying (b\<lparr>index := i\<rparr>) c k = qualifying b c k"
  "qualifying (b\<lparr>currentWeight := w\<rparr>) c k = qualifying b c k"
  "maxWeight (b\<lparr>index := i\<rparr>) = maxWeight b"
  "maxWeight (b\<lparr>currentWeight := w\<rparr>) = maxWeight b"
  "weightGcd (b\<lparr>index := i\<rparr>) = weightGcd b"
  "weightGcd (b\<lparr>currentWeight := w\<rparr>) = weightGcd b"
  by (simp_all add: qualifying_def maxWeight_def weightGcd_def)






lemma level_schedule_0 [simp]: "level_schedule b 0 = []"
  by (simp add: level_schedule_def)


lemma level_schedule_frame [simp]:
  "level_schedule (b\<lparr>index := i\<rparr>) t = level_schedule b t"
  "level_schedule (b\<lparr>currentWeight := w\<rparr>) t = level_schedule b t"
  by (simp_all add: level_schedule_def)














end
